theory Spec2Isabelle
  imports Main "HOL-Library.Sublist"
begin

section \<open>JavaScript strings\<close>

text \<open>
  The scraper works on JavaScript strings. A string is modelled as a list of code units;
  the model covers the code units U+0000 to U+00FF, one \<^typ>\<open>char\<close> each, and
  \<open>length\<close> is the JavaScript \<open>.length\<close>.
\<close>

text \<open>The characters matched by \<open>\s\<close> and removed by \<open>trim()\<close>: tab, line feed,
  vertical tab, form feed, carriage return, space and no-break space.\<close>

definition is_space :: "char \<Rightarrow> bool" where
  "is_space c = (c \<in> set [CHR 0x09, CHR 0x0A, CHR 0x0B, CHR 0x0C, CHR 0x0D, CHR 0x20, CHR 0xA0])"

text \<open>\<open>\d\<close>, \<open>[A-Z]\<close> and \<open>[a-z]\<close>.\<close>

definition is_digit :: "char \<Rightarrow> bool" where
  "is_digit c = (c \<in> set ''0123456789'')"

definition is_upper :: "char \<Rightarrow> bool" where
  "is_upper c = (c \<in> set ''ABCDEFGHIJKLMNOPQRSTUVWXYZ'')"

definition is_lower :: "char \<Rightarrow> bool" where
  "is_lower c = (c \<in> set ''abcdefghijklmnopqrstuvwxyz'')"

text \<open>The first position at which \<open>key\<close> occurs in \<open>s\<close>, scanning from the left.\<close>

fun index_of :: "string \<Rightarrow> string \<Rightarrow> nat option" where
  "index_of key [] = (if key = [] then Some 0 else None)"
| "index_of key (c # cs) =
     (if prefix key (c # cs) then Some 0 else map_option Suc (index_of key cs))"

text \<open>\<open>s.indexOf(key, from)\<close>: the start position is clamped to \<open>[0, s.length]\<close>, the
  result is \<open>-1\<close> when there is no occurrence at or after it.\<close>

definition indexOf :: "string \<Rightarrow> string \<Rightarrow> int \<Rightarrow> int" where
  "indexOf s key from =
     (let k = nat (max 0 (min from (int (length s))))
      in case index_of key (drop k s) of None \<Rightarrow> - 1 | Some i \<Rightarrow> int (k + i))"

text \<open>\<open>s.includes(key)\<close>.\<close>

definition str_includes :: "string \<Rightarrow> string \<Rightarrow> bool" where
  "str_includes s key = (indexOf s key 0 \<noteq> - 1)"

text \<open>\<open>s.substring(a, b)\<close>: both indices are clamped to \<open>[0, s.length]\<close> and swapped
  when the first exceeds the second.\<close>

definition substring :: "string \<Rightarrow> int \<Rightarrow> int \<Rightarrow> string" where
  "substring s a b =
     (let n = int (length s);
          a' = max 0 (min a n);
          b' = max 0 (min b n);
          lo = min a' b';
          hi = max a' b'
      in take (nat (hi - lo)) (drop (nat lo) s))"

text \<open>\<open>s.trim()\<close>.\<close>

definition trim :: "string \<Rightarrow> string" where
  "trim s = rev (dropWhile is_space (rev (dropWhile is_space s)))"

text \<open>\<open>s.replace(/[:\-\.]/g, '')\<close>: every colon, hyphen and full stop is deleted.\<close>

definition remove_punct :: "string \<Rightarrow> string" where
  "remove_punct s = filter (\<lambda>c. c \<notin> set '':-.'') s"

section \<open>Section extraction\<close>

text \<open>
  \<open>getSection\<close> is a closure over the card's \<open>text\<close>; the text is its first argument
  here. The loop over \<open>endKeywords\<close> is a left fold on \<open>endIndex\<close>, which starts at
  \<open>text.length\<close>. The result is \<open>None\<close> where the source returns \<open>null\<close>.
\<close>

definition nearest_end :: "string \<Rightarrow> int \<Rightarrow> string list \<Rightarrow> int" where
  "nearest_end text startIndex endKeywords =
     foldl (\<lambda>endIndex key.
              let idx = indexOf text key startIndex
              in if idx \<noteq> - 1 \<and> idx < endIndex then idx else endIndex)
           (int (length text)) endKeywords"

definition getSection :: "string \<Rightarrow> string \<Rightarrow> string list \<Rightarrow> string option" where
  "getSection text startKeyword endKeywords =
     (if \<not> str_includes text startKeyword then None
      else
        let startIndex = indexOf text startKeyword 0 + int (length startKeyword);
            endIndex = nearest_end text startIndex endKeywords
        in Some (trim (remove_punct (substring text startIndex endIndex))))"

section \<open>The regular expressions of the extractor\<close>

text \<open>
  The three patterns of \<open>parseReviewCard\<close> are sequences of character classes, each
  repeated between a least and a greatest number of times. \<open>match_here\<close> is the
  backtracking matcher for such a sequence at the start of a string: every quantifier is
  greedy, it takes as many characters as it may and gives them back one at a time while
  the rest of the pattern fails. The result is the length of the match.
\<close>

type_synonym regex_item = "(char \<Rightarrow> bool) \<times> nat \<times> nat"

fun first_some :: "('a \<Rightarrow> 'b option) \<Rightarrow> 'a list \<Rightarrow> 'b option" where
  "first_some f [] = None"
| "first_some f (x # xs) = (case f x of Some y \<Rightarrow> Some y | None \<Rightarrow> first_some f xs)"

fun match_here :: "regex_item list \<Rightarrow> string \<Rightarrow> nat option" where
  "match_here [] s = Some 0"
| "match_here ((cls, lo, hi) # items) s =
     (let most = min hi (length (takeWhile cls s))
      in first_some (\<lambda>n. map_option (\<lambda>m. n + m) (match_here items (drop n s)))
           (rev [lo..<Suc most]))"

text \<open>An unanchored pattern is tried at position 0, then 1, and so on; the result is the
  position and the length of the leftmost match.\<close>

fun regex_search :: "regex_item list \<Rightarrow> string \<Rightarrow> (nat \<times> nat) option" where
  "regex_search items [] = map_option (\<lambda>m. (0, m)) (match_here items [])"
| "regex_search items (c # cs) =
     (case match_here items (c # cs) of
        Some m \<Rightarrow> Some (0, m)
      | None \<Rightarrow> map_option (\<lambda>(i, m). (Suc i, m)) (regex_search items cs))"

text \<open>\<open>/^[0-5]\.\d/\<close>\<close>

definition rating_pattern :: "regex_item list" where
  "rating_pattern = [(\<lambda>c. c \<in> set ''012345'', 1, 1), (\<lambda>c. c = CHR ''.'', 1, 1), (is_digit, 1, 1)]"

text \<open>\<open>/([A-Z][a-z]{2,9}\s\d{1,2},\s\d{4})/\<close>; its only group is the whole match.\<close>

definition date_pattern :: "regex_item list" where
  "date_pattern =
     [(is_upper, 1, 1), (is_lower, 2, 9), (is_space, 1, 1), (is_digit, 1, 2),
      (\<lambda>c. c = CHR '','', 1, 1), (is_space, 1, 1), (is_digit, 4, 4)]"

text \<open>\<open>text.match(/^[0-5]\.\d/)\<close> and \<open>text.match(/([A-Z]...\d{4})/)\<close>, each giving the
  matched text or \<open>None\<close> for \<open>null\<close>.\<close>

definition match_rating :: "string \<Rightarrow> string option" where
  "match_rating text = map_option (\<lambda>m. take m text) (match_here rating_pattern text)"

definition match_date :: "string \<Rightarrow> string option" where
  "match_date text = map_option (\<lambda>(i, m). take m (drop i text)) (regex_search date_pattern text)"

text \<open>\<open>s.replace(pat, '')\<close> with a string pattern: the first occurrence is deleted.\<close>

definition replace_first :: "string \<Rightarrow> string \<Rightarrow> string" where
  "replace_first s pat =
     (case index_of pat s of None \<Rightarrow> s | Some i \<Rightarrow> take i s @ drop (i + length pat) s)"

text \<open>\<open>s.replace(/^[\s\-\|]+/, '')\<close>: the leading run of white space, hyphens and
  vertical bars is deleted.\<close>

definition strip_separators :: "string \<Rightarrow> string" where
  "strip_separators s = dropWhile (\<lambda>c. is_space c \<or> c = CHR ''-'' \<or> c = CHR ''|'') s"

text \<open>\<open>s.split(sep)\<close> for a one-character separator: the pieces between separators,
  empty pieces included.\<close>

fun split_on :: "(char \<Rightarrow> bool) \<Rightarrow> string \<Rightarrow> string list" where
  "split_on sep [] = [] # []"
| "split_on sep (c # cs) =
     (if sep c then [] # split_on sep cs
      else (case split_on sep cs of
              [] \<Rightarrow> [c] # []
            | w # ws \<Rightarrow> (c # w) # ws))"

definition split_lines :: "string \<Rightarrow> string list" where
  "split_lines text = split_on (\<lambda>c. c = CHR 0x0A) text"

section \<open>The DOM\<close>

text \<open>
  An element carries what the extractor reads of it: its tag name in lower case, its
  \<open>class\<close> and \<open>href\<close> attributes (\<open>None\<close> when absent), the rendered text that the
  browser reports as \<open>innerText\<close>, and its child elements in document order.
\<close>

datatype element =
  Element (tagName: string) (className: "string option") (href: "string option")
          (innerText: string) (children: "element list")

text \<open>The descendants of an element in document order, the element itself excluded:
  what \<open>querySelector\<close> searches.\<close>

fun descendants :: "element \<Rightarrow> element list" where
  "descendants (Element t c h txt es) = concat (map (\<lambda>e. e # descendants e) es)"

text \<open>The class selector compares with the white-space separated tokens of the \<open>class\<close>
  attribute; \<open>[attr*="v"]\<close> asks for the attribute to be present and contain \<open>v\<close>.\<close>

definition is_ascii_space :: "char \<Rightarrow> bool" where
  "is_ascii_space c = (c \<in> set [CHR 0x09, CHR 0x0A, CHR 0x0C, CHR 0x0D, CHR 0x20])"

definition has_class :: "string \<Rightarrow> element \<Rightarrow> bool" where
  "has_class name e =
     (case className e of None \<Rightarrow> False | Some cls \<Rightarrow> name \<in> set (split_on is_ascii_space cls))"

definition attr_contains :: "string option \<Rightarrow> string \<Rightarrow> bool" where
  "attr_contains a v = (case a of None \<Rightarrow> False | Some s \<Rightarrow> str_includes s v)"

text \<open>\<open>card.querySelector(sel)\<close>: the first descendant that matches, or \<open>None\<close>.\<close>

definition querySelector :: "(element \<Rightarrow> bool) \<Rightarrow> element \<Rightarrow> element option" where
  "querySelector sel el = find sel (descendants el)"

text \<open>\<open>.ratingNumber\<close>, \<open>span[class*="rating"]\<close> and
  \<open>a[href*="/Reviews/Employee-Review"]\<close>.\<close>

definition sel_ratingNumber :: "element \<Rightarrow> bool" where
  "sel_ratingNumber e = has_class ''ratingNumber'' e"

definition sel_ratingSpan :: "element \<Rightarrow> bool" where
  "sel_ratingSpan e = (tagName e = ''span'' \<and> attr_contains (className e) ''rating'')"

definition sel_reviewLink :: "element \<Rightarrow> bool" where
  "sel_reviewLink e = (tagName e = ''a'' \<and> attr_contains (href e) ''/Reviews/Employee-Review'')"

section \<open>Parsing one review card\<close>

text \<open>The object that \<open>parseReviewCard\<close> returns; a field is \<open>None\<close> where the
  source has \<open>null\<close>.\<close>

record review =
  rating :: "string option"
  date :: "string option"
  title :: "string option"
  job_title :: "string option"
  pros :: "string option"
  cons :: "string option"
  advice :: "string option"

text \<open>JavaScript truthiness of a value that is \<open>null\<close>, \<open>undefined\<close> or a string: only
  a non-empty string is truthy.\<close>

definition truthy :: "string option \<Rightarrow> bool" where
  "truthy v = (case v of None \<Rightarrow> False | Some s \<Rightarrow> s \<noteq> [])"

text \<open>The garbage filter at the head of \<open>parseReviewCard\<close>: each of the three tests
  makes it return \<open>null\<close>.\<close>

definition is_noise :: "string \<Rightarrow> bool" where
  "is_noise text = (str_includes text ''(in '' \<and> str_includes text ''reviews)'')"

definition has_rating_signal :: "element \<Rightarrow> bool" where
  "has_rating_signal el =
     (\<not> (\<not> str_includes (innerText el) ''Star''
         \<and> querySelector sel_ratingNumber el = None
         \<and> querySelector sel_ratingSpan el = None))"

text \<open>The rating: the trimmed text of the rating element when there is one; when that
  leaves \<open>rating\<close> falsy, the match of the rating pattern at the start of the text.\<close>

definition rating_element :: "element \<Rightarrow> element option" where
  "rating_element el =
     (case querySelector sel_ratingNumber el of
        Some e \<Rightarrow> Some e
      | None \<Rightarrow> querySelector sel_ratingSpan el)"

definition extract_rating :: "element \<Rightarrow> string option" where
  "extract_rating el =
     (let rating = (case rating_element el of
                      None \<Rightarrow> None
                    | Some ratingEl \<Rightarrow> Some (trim (innerText ratingEl)))
      in if \<not> truthy rating
         then (case match_rating (innerText el) of Some m \<Rightarrow> Some m | None \<Rightarrow> rating)
         else rating)"

definition extract_title :: "element \<Rightarrow> string option" where
  "extract_title el =
     (case querySelector sel_reviewLink el of
        None \<Rightarrow> None
      | Some link \<Rightarrow> Some (trim (innerText link)))"

text \<open>The job title: the first line of the text that includes the date, with the first
  occurrence of the date deleted, then the leading separators, then trimmed.\<close>

definition extract_jobTitle :: "string \<Rightarrow> string option \<Rightarrow> string option" where
  "extract_jobTitle text date_opt =
     (case date_opt of
        None \<Rightarrow> None
      | Some d \<Rightarrow>
          if d = [] then None
          else (case find (\<lambda>l. str_includes l d) (split_lines text) of
                  None \<Rightarrow> None
                | Some dateLine \<Rightarrow>
                    if dateLine = [] then None
                    else Some (trim (strip_separators (replace_first dateLine d)))))"

definition parseReviewCard :: "element \<Rightarrow> review option" where
  "parseReviewCard el =
     (let text = innerText el
      in if is_noise text then None
         else if length text < 50 then None
         else if \<not> has_rating_signal el then None
         else
           let r = extract_rating el;
               d = match_date text;
               t = extract_title el;
               j = extract_jobTitle text d;
               p = getSection text ''Pros'' [''Cons'', ''Advice to Management'', ''Helpful''];
               c = getSection text ''Cons'' [''Advice to Management'', ''Helpful''];
               a = getSection text ''Advice to Management'' [''Helpful'']
           in if truthy r \<and> (truthy p \<or> truthy c \<or> truthy t)
              then Some \<lparr>rating = r, date = d, title = t, job_title = j,
                          pros = p, cons = c, advice = a\<rparr>
              else None)"

section \<open>Selecting the candidates of a page\<close>

text \<open>
  A node of the document is an element together with its position: the list of child
  indices that leads to it from the root. Two nodes are the same object exactly when
  their positions are equal, and \<open>other.contains(d)\<close> holds exactly when the position of
  \<open>other\<close> is a prefix of the position of \<open>d\<close> (a node contains itself).
\<close>

type_synonym node = "nat list \<times> element"

fun nodes_at :: "nat list \<Rightarrow> element \<Rightarrow> node list"
  and nodes_list :: "nat list \<Rightarrow> nat \<Rightarrow> element list \<Rightarrow> node list" where
  "nodes_at pos (Element t c h txt es) = (pos, Element t c h txt es) # nodes_list pos 0 es"
| "nodes_list pos i [] = []"
| "nodes_list pos i (e # es) = nodes_at (pos @ [i]) e @ nodes_list pos (Suc i) es"

text \<open>\<open>document.querySelectorAll(tag)\<close>: the elements of that tag in document order.\<close>

definition querySelectorAll :: "string \<Rightarrow> element \<Rightarrow> node list" where
  "querySelectorAll tag doc = filter (\<lambda>n. tagName (snd n) = tag) (nodes_at [] doc)"

definition same_node :: "node \<Rightarrow> node \<Rightarrow> bool" where
  "same_node a b = (fst a = fst b)"

definition contains :: "node \<Rightarrow> node \<Rightarrow> bool" where
  "contains other d = prefix (fst other) (fst d)"

definition is_review_div :: "node \<Rightarrow> bool" where
  "is_review_div d =
     (str_includes (innerText (snd d)) ''Pros'' \<and> str_includes (innerText (snd d)) ''Cons''
      \<and> length (innerText (snd d)) < 2000)"

definition reviewDivs :: "element \<Rightarrow> node list" where
  "reviewDivs doc = filter is_review_div (querySelectorAll ''div'' doc)"

definition dedup_nested :: "node list \<Rightarrow> node list" where
  "dedup_nested divs =
     filter (\<lambda>d. \<not> list_ex (\<lambda>other. \<not> same_node other d \<and> contains other d) divs) divs"

definition uniqueDivs :: "element \<Rightarrow> node list" where
  "uniqueDivs doc = dedup_nested (reviewDivs doc)"

text \<open>The callback of \<open>page.$$eval\<close>: the list items first, the deduplicated review
  blocks when the list items give no review.\<close>

definition parse_all :: "node list \<Rightarrow> review list" where
  "parse_all candidates = List.map_filter (\<lambda>n. parseReviewCard (snd n)) candidates"

definition extract_reviews :: "element \<Rightarrow> review list" where
  "extract_reviews doc =
     (let results = parse_all (querySelectorAll ''li'' doc)
      in if length results = 0 then parse_all (uniqueDivs doc) else results)"

section \<open>The persisted store\<close>

text \<open>
  JSON values. A number keeps the text of its literal: the store never computes with it.
\<close>

datatype json =
  JNull | JBool bool | JNum string | JStr string | JArr "json list"
| JObj "(string \<times> json) list"

datatype js_error = TypeError

text \<open>\<open>[...v]\<close>: an array spreads into its elements and a string into its characters;
  spreading any other JSON value throws a \<open>TypeError\<close>.\<close>

fun spread :: "json \<Rightarrow> js_error + json list" where
  "spread (JArr xs) = Inr xs"
| "spread (JStr s) = Inr (map (\<lambda>c. JStr [c]) s)"
| "spread v = Inl TypeError"

text \<open>The object \<open>{ company: companyName, ...r }\<close> built for each review before saving.\<close>

definition json_of_field :: "string option \<Rightarrow> json" where
  "json_of_field v = (case v of None \<Rightarrow> JNull | Some s \<Rightarrow> JStr s)"

definition cleanReview :: "string \<Rightarrow> review \<Rightarrow> json" where
  "cleanReview companyName r =
     JObj [(''company'', JStr companyName),
           (''rating'', json_of_field (rating r)),
           (''date'', json_of_field (date r)),
           (''title'', json_of_field (title r)),
           (''job_title'', json_of_field (job_title r)),
           (''pros'', json_of_field (pros r)),
           (''cons'', json_of_field (cons r)),
           (''advice'', json_of_field (advice r))]"

text \<open>
  \<open>saveData\<close>. The file system is the content of the output file, \<open>None\<close> when the
  file does not exist. \<open>JSON.parse\<close> and \<open>JSON.stringify\<close> belong to the language
  runtime and are parameters: \<open>JSON_parse\<close> gives \<open>None\<close> where \<open>JSON.parse\<close> throws,
  which the \<open>try\<close> of \<open>saveData\<close> catches, leaving \<open>existing\<close> at \<open>[]\<close>. The spread
  is outside the \<open>try\<close>, so its \<open>TypeError\<close> leaves \<open>saveData\<close> and nothing is written.
\<close>

definition saveData ::
  "(string \<Rightarrow> json option) \<Rightarrow> (json \<Rightarrow> string) \<Rightarrow> json list \<Rightarrow> string option
     \<Rightarrow> js_error + string option" where
  "saveData JSON_parse JSON_stringify newData file =
     (let existing = (case file of
                        None \<Rightarrow> JArr []
                      | Some content \<Rightarrow>
                          (case JSON_parse content of None \<Rightarrow> JArr [] | Some v \<Rightarrow> v))
      in case spread existing of
           Inl e \<Rightarrow> Inl e
         | Inr xs \<Rightarrow> Inr (Some (JSON_stringify (JArr (xs @ newData)))))"

text \<open>A run of \<open>saveData\<close> over successive batches; the first exception ends it.\<close>

fun saveData_all ::
  "(string \<Rightarrow> json option) \<Rightarrow> (json \<Rightarrow> string) \<Rightarrow> json list list \<Rightarrow> string option
     \<Rightarrow> js_error + string option" where
  "saveData_all JSON_parse JSON_stringify [] file = Inr file"
| "saveData_all JSON_parse JSON_stringify (b # bs) file =
     (case saveData JSON_parse JSON_stringify b file of
        Inl e \<Rightarrow> Inl e
      | Inr file' \<Rightarrow> saveData_all JSON_parse JSON_stringify bs file')"

text \<open>The records that a reader of the store finds: the elements of the array that the
  file parses to.\<close>

definition stored_records :: "(string \<Rightarrow> json option) \<Rightarrow> string option \<Rightarrow> json list option" where
  "stored_records JSON_parse file =
     (case file of
        None \<Rightarrow> None
      | Some content \<Rightarrow> (case JSON_parse content of Some (JArr xs) \<Rightarrow> Some xs | _ \<Rightarrow> None))"

section \<open>Pagination\<close>

definition MAX_PAGES_PER_COMPANY :: nat where
  "MAX_PAGES_PER_COMPANY = 30"

text \<open>
  What one iteration of the page loop observes of the browser. \<open>BodyThrows\<close>: a call
  outside the \<open>try\<close> blocks (scrolling, \<open>$$eval\<close>, \<open>saveData\<close>) throws, which ends
  \<open>scrapeGlassdoor\<close>. \<open>PaginationThrows\<close>: a call inside the \<open>try\<close> of the "Next Page"
  step throws, which the \<open>catch\<close> turns into \<open>break\<close>. \<open>NextButton\<close>: the step reads
  the locator's \<open>count()\<close>, \<open>isVisible()\<close>, \<open>isDisabled()\<close> and \<open>class\<close> attribute, and
  the click, when it is reached, succeeds.
\<close>

datatype page_obs =
  BodyThrows
| PaginationThrows
| NextButton (count: nat) (isVisible: bool) (isDisabled: bool) (classAttr: "string option")

datatype stop_reason =
  Aborted | PaginationError | NoMatch | Hidden | Disabled | CapReached

text \<open>\<open>classList.includes('disabled')\<close> with \<open>classList = getAttribute('class') || ""\<close>.\<close>

definition isClassDisabled :: "string option \<Rightarrow> bool" where
  "isClassDisabled cls =
     str_includes (case cls of None \<Rightarrow> [] | Some c \<Rightarrow> if c = [] then [] else c) ''disabled''"

text \<open>The end of one iteration: the reason that ends the loop, or \<open>None\<close> when the next
  page is opened and the loop goes on.\<close>

fun page_step :: "page_obs \<Rightarrow> stop_reason option" where
  "page_step BodyThrows = Some Aborted"
| "page_step PaginationThrows = Some PaginationError"
| "page_step (NextButton n vis dis cls) =
     (if n = 0 then Some NoMatch
      else if \<not> vis then Some Hidden
      else if dis \<or> isClassDisabled cls then Some Disabled
      else None)"

text \<open>\<open>for (let i = 0; i < MAX_PAGES_PER_COMPANY; i++)\<close>, from a given \<open>i\<close>: the number
  of iterations begun when the loop ends, and why it ended. \<open>pages i\<close> is what iteration
  \<open>i\<close> observes.\<close>

function page_loop :: "(nat \<Rightarrow> page_obs) \<Rightarrow> nat \<Rightarrow> nat \<times> stop_reason" where
  "page_loop pages i =
     (if i < MAX_PAGES_PER_COMPANY
      then (case page_step (pages i) of
              Some why \<Rightarrow> (Suc i, why)
            | None \<Rightarrow> page_loop pages (Suc i))
      else (i, CapReached))"
  by pat_completeness auto
termination
  by (relation "measure (\<lambda>(pages, i). MAX_PAGES_PER_COMPANY - i)") auto

definition scrape_pages :: "(nat \<Rightarrow> page_obs) \<Rightarrow> nat \<times> stop_reason" where
  "scrape_pages pages = page_loop pages 0"

section \<open>Vocabulary of the properties\<close>

text \<open>\<open>key\<close> occurs in \<open>s\<close> at position \<open>i\<close>.\<close>

definition occurs_at :: "string \<Rightarrow> string \<Rightarrow> nat \<Rightarrow> bool" where
  "occurs_at key s i = (i \<le> length s \<and> prefix key (drop i s))"

text \<open>
  Reading a rating as a number, to state that it lies between 0 and 5: a numeral
  \<open>d\<dots>d\<close> or \<open>d\<dots>d.d\<dots>d\<close> denotes \<open>m / 10 ^ k\<close>, given as the pair \<open>(m, k)\<close>;
  any other text denotes no number.
\<close>

definition digit_value :: "char \<Rightarrow> nat" where
  "digit_value c = of_char c - 48"

definition digits_value :: "string \<Rightarrow> nat" where
  "digits_value s = foldl (\<lambda>n c. 10 * n + digit_value c) 0 s"

definition decimal_of :: "string \<Rightarrow> (nat \<times> nat) option" where
  "decimal_of s =
     (let whole = takeWhile is_digit s; rest = dropWhile is_digit s
      in if whole = [] then None
         else if rest = [] then Some (digits_value whole, 0)
         else if hd rest = CHR ''.'' \<and> tl rest \<noteq> [] \<and> list_all is_digit (tl rest)
              then Some (digits_value (whole @ tl rest), length (tl rest))
              else None)"

definition rating_in_range :: "string \<Rightarrow> bool" where
  "rating_in_range s = (case decimal_of s of None \<Rightarrow> False | Some (m, k) \<Rightarrow> m \<le> 5 * 10 ^ k)"

section \<open>Example inputs\<close>

text \<open>A list item whose text is too short to be a review.\<close>

definition short_card :: element where
  "short_card = Element ''li'' None None ''4.0 Star'' []"

text \<open>A list item with a rating at the start of its text, a date line, both sections and
  a link to the review.\<close>

definition good_card :: element where
  "good_card = Element ''li'' None None
     ''4.0 Star\<newline>Nov 28, 2025 - Current Employee - Engineer\<newline>Pros good pay Cons long hours Helpful (3)''
     [Element ''a'' None (Some ''/Reviews/Employee-Review-1.htm'') '' Great place '' []]"

text \<open>A fragment of a runtime's \<open>JSON.parse\<close> and \<open>JSON.stringify\<close>, on the few
  texts and values of the examples below; every other text fails to parse.\<close>

definition demo_parse :: "string \<Rightarrow> json option" where
  "demo_parse = map_of
     [(''[]'', JArr []),
      (''[1]'', JArr [JNum ''1'']),
      (''[1,2,3]'', JArr [JNum ''1'', JNum ''2'', JNum ''3''])]"

definition demo_stringify :: "json \<Rightarrow> string" where
  "demo_stringify v =
     (if v = JArr [] then ''[]''
      else if v = JArr [JNum ''1''] then ''[1]''
      else if v = JArr [JNum ''1'', JNum ''2'', JNum ''3''] then ''[1,2,3]''
      else ''null'')"

text \<open>A pagination whose "next" control carries the class \<open>disabled\<close> on the fourth
  page.\<close>

definition demo_pages :: "nat \<Rightarrow> page_obs" where
  "demo_pages i = (if i = 3 then NextButton 1 True False (Some ''next disabled'')
                   else NextButton 1 True False (Some ''next''))"

text \<open>A page without list items, with a review block nested in another.\<close>

definition demo_doc :: element where
  "demo_doc = Element ''div'' None None ''page''
     [Element ''div'' None None ''Pros good pay Cons long hours''
        [Element ''div'' None None ''Pros good pay Cons long hours'' []]]"

text \<open>A page without list items, with three review blocks nested one in the other.\<close>

definition chain_doc :: element where
  "chain_doc = Element ''div'' None None ''page''
     [Element ''div'' None None ''Pros good pay Cons long hours''
        [Element ''div'' None None ''Pros good pay Cons long hours''
           [Element ''div'' None None ''Pros good pay Cons long hours'' []]]]"

text \<open>A list item whose text has a date on the line before the status line.\<close>

definition early_date_card :: element where
  "early_date_card = Element ''li'' None None
     ''4.0 Star\<newline>Updated Jan 5, 2024\<newline>Nov 28, 2025 - Current Employee - Engineer\<newline>Pros good pay Cons long hours Helpful (3)''
     []"

text \<open>A list item whose text starts with \<open>5.9\<close>, and one whose first rating-styled
  descendant is a label.\<close>

definition high_card :: element where
  "high_card = Element ''li'' None None
     ''5.9 Star\<newline>Nov 28, 2025 - Current Employee - Engineer\<newline>Pros good pay Cons long hours Helpful (3)''
     []"

definition label_card :: element where
  "label_card = Element ''li'' None None
     ''Overall 4.0 Star\<newline>Nov 28, 2025 - Current Employee - Engineer\<newline>Pros good pay Cons long hours Helpful (3)''
     [Element ''span'' (Some ''ratingLabel'') None ''Overall'' []]"

section \<open>Properties of the string primitives\<close>

lemma occurs_at_Cons_Suc: "occurs_at key (c # cs) (Suc j) = occurs_at key cs j"
  by (simp add: occurs_at_def)

lemma index_of_Some:
  "index_of key s = Some i \<Longrightarrow> occurs_at key s i \<and> (\<forall>j<i. \<not> occurs_at key s j)"
proof (induction s arbitrary: i)
  case Nil
  then show ?case by (simp add: occurs_at_def split: if_splits)
next
  case (Cons c cs)
  show ?case
  proof (cases "prefix key (c # cs)")
    case True
    with Cons.prems show ?thesis by (simp add: occurs_at_def)
  next
    case False
    with Cons.prems obtain i' where i': "index_of key cs = Some i'" and i: "i = Suc i'"
      by auto
    from Cons.IH [OF i'] have ih: "occurs_at key cs i'" "\<forall>j<i'. \<not> occurs_at key cs j"
      by simp_all
    have "\<not> occurs_at key (c # cs) j" if "j < i" for j
    proof (cases j)
      case 0
      with False show ?thesis by (simp add: occurs_at_def)
    next
      case (Suc j')
      with that i ih(2) show ?thesis by (simp add: occurs_at_Cons_Suc)
    qed
    with ih(1) i show ?thesis by (simp add: occurs_at_Cons_Suc)
  qed
qed

lemma index_of_None:
  "index_of key s = None \<Longrightarrow> \<not> occurs_at key s j"
proof (induction s arbitrary: j)
  case Nil
  then show ?case by (simp add: occurs_at_def split: if_splits)
next
  case (Cons c cs)
  then have np: "\<not> prefix key (c # cs)" and none: "index_of key cs = None"
    by (auto split: if_splits)
  show ?case
  proof (cases j)
    case 0
    with np show ?thesis by (simp add: occurs_at_def)
  next
    case (Suc j')
    with Cons.IH [OF none] show ?thesis by (simp add: occurs_at_Cons_Suc)
  qed
qed

lemma occurs_at_drop: "k \<le> length s \<Longrightarrow> occurs_at key (drop k s) j = occurs_at key s (k + j)"
  by (auto simp: occurs_at_def add.commute)

lemma indexOf_cases:
  assumes "k \<le> length s"
  shows "(indexOf s key (int k) = - 1 \<and> (\<forall>j\<ge>k. \<not> occurs_at key s j))
         \<or> (\<exists>i\<ge>k. indexOf s key (int k) = int i \<and> occurs_at key s i
                   \<and> (\<forall>j. k \<le> j \<and> j < i \<longrightarrow> \<not> occurs_at key s j))"
proof (cases "index_of key (drop k s)")
  case None
  have "\<not> occurs_at key s j" if "k \<le> j" for j
  proof -
    from index_of_None [OF None, of "j - k"] assms that show ?thesis
      by (simp add: occurs_at_drop)
  qed
  moreover from None assms have "indexOf s key (int k) = - 1"
    by (simp add: indexOf_def min_def)
  ultimately show ?thesis by blast
next
  case (Some i)
  from index_of_Some [OF Some] assms
  have occ: "occurs_at key s (k + i)" and first: "\<forall>j<i. \<not> occurs_at key s (k + j)"
    by (simp_all add: occurs_at_drop)
  have "\<not> occurs_at key s j" if "k \<le> j" "j < k + i" for j
  proof -
    from that have "j - k < i" by simp
    with first have "\<not> occurs_at key s (k + (j - k))" by blast
    with that show ?thesis by simp
  qed
  moreover from Some assms have "indexOf s key (int k) = int (k + i)"
    by (simp add: indexOf_def min_def)
  ultimately show ?thesis using occ by (intro disjI2 exI [where x = "k + i"]) auto
qed

lemma nearest_end_fold:
  assumes "k \<le> a" and "a \<le> length text"
  shows "\<exists>e. foldl (\<lambda>endIndex key.
                       let idx = indexOf text key (int k)
                       in if idx \<noteq> - 1 \<and> idx < endIndex then idx else endIndex)
                 (int a) keys = int e
             \<and> k \<le> e \<and> e \<le> a
             \<and> (\<forall>key \<in> set keys. \<forall>j. k \<le> j \<and> j < e \<longrightarrow> \<not> occurs_at key text j)
             \<and> (e = a \<or> (\<exists>key \<in> set keys. occurs_at key text e))"
  using assms
proof (induction keys arbitrary: a)
  case Nil
  then show ?case by simp
next
  case (Cons key keys)
  let ?f = "\<lambda>endIndex key. let idx = indexOf text key (int k)
                            in if idx \<noteq> - 1 \<and> idx < endIndex then idx else endIndex"
  from Cons.prems have k: "k \<le> length text" by simp
  from indexOf_cases [OF k, of key]
  obtain a' where step: "?f (int a) key = int a'" and a': "k \<le> a'" "a' \<le> a"
    and clear: "\<forall>j. k \<le> j \<and> j < a' \<longrightarrow> \<not> occurs_at key text j"
    and hit: "a' = a \<or> occurs_at key text a'"
  proof (elim disjE conjE exE)
    assume "indexOf text key (int k) = - 1" "\<forall>j\<ge>k. \<not> occurs_at key text j"
    with Cons.prems show ?thesis
      by (intro that [of a]) (auto simp: Let_def)
  next
    fix i
    assume i: "k \<le> i" "indexOf text key (int k) = int i" "occurs_at key text i"
      "\<forall>j. k \<le> j \<and> j < i \<longrightarrow> \<not> occurs_at key text j"
    show ?thesis
    proof (cases "i < a")
      case True
      with i Cons.prems show ?thesis
        by (intro that [of i]) (auto simp: Let_def)
    next
      case False
      with i Cons.prems show ?thesis
        by (intro that [of a]) (auto simp: Let_def)
    qed
  qed
  from a' Cons.prems have "a' \<le> length text" by simp
  from Cons.IH [OF a'(1) this]
  obtain e where e: "foldl ?f (int a') keys = int e" "k \<le> e" "e \<le> a'"
    "\<forall>key \<in> set keys. \<forall>j. k \<le> j \<and> j < e \<longrightarrow> \<not> occurs_at key text j"
    "e = a' \<or> (\<exists>key \<in> set keys. occurs_at key text e)"
    by blast
  have "foldl ?f (int a) (key # keys) = int e"
    using step e(1) by simp
  moreover have "\<forall>key' \<in> set (key # keys). \<forall>j. k \<le> j \<and> j < e \<longrightarrow> \<not> occurs_at key' text j"
    using clear e(3,4) by auto
  moreover have "e = a \<or> (\<exists>key' \<in> set (key # keys). occurs_at key' text e)"
    using hit e(5) by auto
  ultimately show ?case
    using e(2,3) a'(2) by (intro exI [where x = e]) auto
qed

lemma substring_take_drop:
  "s \<le> e \<Longrightarrow> e \<le> length text \<Longrightarrow> substring text (int s) (int e) = take (e - s) (drop s text)"
  by (simp add: substring_def Let_def min_def max_def nat_diff_distrib')

lemma str_includes_iff: "str_includes s key \<longleftrightarrow> (\<exists>a b. s = a @ key @ b)"
proof
  assume "str_includes s key"
  then obtain i where "index_of key s = Some i"
    by (auto simp: str_includes_def indexOf_def split: option.splits)
  from index_of_Some [OF this] have "prefix key (drop i s)"
    by (simp add: occurs_at_def)
  then obtain b where "drop i s = key @ b"
    by (auto simp: prefix_def)
  then have "s = take i s @ key @ b"
    by (metis append_take_drop_id)
  then show "\<exists>a b. s = a @ key @ b" by blast
next
  assume "\<exists>a b. s = a @ key @ b"
  then obtain a b where s: "s = a @ key @ b" by blast
  then have "occurs_at key s (length a)"
    by (simp add: occurs_at_def)
  then have "index_of key s \<noteq> None"
    using index_of_None by blast
  then show "str_includes s key"
    by (auto simp: str_includes_def indexOf_def)
qed

lemma split_on_nonempty: "split_on sep xs \<noteq> []"
  by (induction xs) (auto split: list.splits)

lemma split_on_append_sep:
  "sep c \<Longrightarrow> split_on sep (xs @ c # ys) = split_on sep xs @ split_on sep ys"
proof (induction xs)
  case Nil
  then show ?case by simp
next
  case (Cons x xs)
  then show ?case
    using split_on_nonempty [of sep xs] by (auto split: list.splits)
qed

lemma split_on_no_sep: "\<forall>c \<in> set xs. \<not> sep c \<Longrightarrow> split_on sep xs = [xs]"
  by (induction xs) auto

lemma split_on_hd: "split_on sep xs = w # ws \<Longrightarrow> \<exists>b. xs = w @ b"
proof (induction xs arbitrary: w ws)
  case Nil
  then show ?case by simp
next
  case (Cons x xs)
  show ?case
  proof (cases "sep x")
    case True
    with Cons.prems show ?thesis by auto
  next
    case False
    obtain v vs where v: "split_on sep xs = v # vs"
      using split_on_nonempty [of sep xs] by (cases "split_on sep xs") auto
    from Cons.IH [OF v] obtain b where "xs = v @ b" by blast
    moreover from False v Cons.prems have "w = x # v" by simp
    ultimately show ?thesis by simp
  qed
qed

lemma split_on_piece: "l \<in> set (split_on sep xs) \<Longrightarrow> \<exists>a b. xs = a @ l @ b"
proof (induction xs arbitrary: l)
  case Nil
  then show ?case by simp
next
  case (Cons x xs)
  obtain w ws where w: "split_on sep xs = w # ws"
    using split_on_nonempty [of sep xs] by (cases "split_on sep xs") auto
  have later: "\<exists>a b. x # xs = a @ l @ b" if "l \<in> set (split_on sep xs)"
  proof -
    from Cons.IH [OF that] obtain a b where "xs = a @ l @ b" by blast
    then have "x # xs = (x # a) @ l @ b" by simp
    then show ?thesis by blast
  qed
  show ?case
  proof (cases "sep x")
    case True
    with Cons.prems have "l = [] \<or> l \<in> set (split_on sep xs)" by auto
    then show ?thesis
    proof
      assume "l = []"
      then have "x # xs = [] @ l @ (x # xs)" by simp
      then show ?thesis by blast
    next
      assume "l \<in> set (split_on sep xs)"
      then show ?thesis by (rule later)
    qed
  next
    case False
    with w Cons.prems have "l = x # w \<or> l \<in> set ws" by auto
    then show ?thesis
    proof
      assume l: "l = x # w"
      from split_on_hd [OF w] obtain b where "xs = w @ b" by blast
      with l have "x # xs = [] @ l @ b" by simp
      then show ?thesis by blast
    next
      assume "l \<in> set ws"
      with w have "l \<in> set (split_on sep xs)" by simp
      then show ?thesis by (rule later)
    qed
  qed
qed

lemma find_first:
  "\<forall>l \<in> set before. \<not> P l \<Longrightarrow> P x \<Longrightarrow> find P (before @ x # after) = Some x"
  by (induction before) auto

lemma split_lines_around:
  assumes pre: "pre = [] \<or> last pre = CHR 0x0A"
    and post: "post = [] \<or> hd post = CHR 0x0A"
    and line: "\<forall>c \<in> set line. c \<noteq> CHR 0x0A"
  shows "\<exists>before after. split_lines (pre @ line @ post) = before @ line # after
           \<and> (\<forall>l \<in> set before. \<exists>a b. pre = a @ l @ b)"
proof -
  let ?nl = "\<lambda>c. c = CHR 0x0A"
  have one: "split_on ?nl line = [line]"
    using line by (intro split_on_no_sep) simp
  have "\<exists>after. split_on ?nl (line @ post) = line # after"
  proof (cases "post = []")
    case True
    with one show ?thesis by simp
  next
    case False
    with post obtain post' where "post = CHR 0x0A # post'"
      by (cases post) auto
    then have "split_on ?nl (line @ post) = split_on ?nl line @ split_on ?nl post'"
      by (simp add: split_on_append_sep)
    with one show ?thesis by simp
  qed
  then obtain after where after: "split_on ?nl (line @ post) = line # after"
    by blast
  show ?thesis
  proof (cases "pre = []")
    case True
    with after have "split_lines (pre @ line @ post) = [] @ line # after"
      by (simp add: split_lines_def)
    then show ?thesis
      by (metis empty_iff list.set(1))
  next
    case False
    with pre obtain pre' where p: "pre = pre' @ [CHR 0x0A]"
      by (metis append_butlast_last_id)
    have "split_on ?nl ((pre' @ [CHR 0x0A]) @ line @ post)
            = split_on ?nl pre' @ split_on ?nl (line @ post)"
      using split_on_append_sep [of ?nl "CHR 0x0A" pre' "line @ post"] by simp
    with after p have split: "split_lines (pre @ line @ post) = split_on ?nl pre' @ line # after"
      by (simp add: split_lines_def)
    have "\<exists>a b. pre = a @ l @ b" if "l \<in> set (split_on ?nl pre')" for l
    proof -
      from split_on_piece [OF that] obtain a b where "pre' = a @ l @ b"
        by blast
      with p have "pre = a @ l @ (b @ [CHR 0x0A])"
        by simp
      then show ?thesis by blast
    qed
    with split show ?thesis
      by blast
  qed
qed

lemma find_date_line:
  assumes pre: "pre = [] \<or> last pre = CHR 0x0A"
    and post: "post = [] \<or> hd post = CHR 0x0A"
    and line: "\<forall>c \<in> set line. c \<noteq> CHR 0x0A"
    and has: "str_includes line d"
    and fresh: "\<not> str_includes pre d"
  shows "find (\<lambda>l. str_includes l d) (split_lines (pre @ line @ post)) = Some line"
proof -
  from split_lines_around [OF pre post line]
  obtain before after where split: "split_lines (pre @ line @ post) = before @ line # after"
    and parts: "\<forall>l \<in> set before. \<exists>a b. pre = a @ l @ b"
    by blast
  have "\<not> str_includes l d" if l: "l \<in> set before" for l
  proof
    assume "str_includes l d"
    then obtain a' b' where "l = a' @ d @ b'"
      unfolding str_includes_iff by blast
    moreover from parts l obtain a b where "pre = a @ l @ b"
      by blast
    ultimately have "pre = (a @ a') @ d @ (b' @ b)"
      by simp
    then have "str_includes pre d"
      unfolding str_includes_iff by blast
    with fresh show False by simp
  qed
  then have "\<forall>l \<in> set before. \<not> str_includes l d"
    by blast
  then show ?thesis
    unfolding split using has by (rule find_first)
qed

section \<open>Properties of the patterns\<close>

lemma match_rating_Some:
  assumes "match_rating text = Some m"
  shows "\<exists>a b rest. text = a # CHR ''.'' # b # rest \<and> a \<in> set ''012345'' \<and> is_digit b
                     \<and> m = [a, CHR ''.'', b]"
proof (cases "text")
  case Nil
  with assms show ?thesis
    by (simp add: match_rating_def rating_pattern_def)
next
  case a: (Cons a t1)
  show ?thesis
  proof (cases t1)
    case Nil
    with assms a show ?thesis
      by (simp add: match_rating_def rating_pattern_def split: if_splits)
  next
    case p: (Cons p t2)
    show ?thesis
    proof (cases t2)
      case Nil
      with assms a p show ?thesis
        by (simp add: match_rating_def rating_pattern_def split: if_splits)
    next
      case b: (Cons b rest)
      with assms a p show ?thesis
        by (simp add: match_rating_def rating_pattern_def split: if_splits)
    qed
  qed
qed

lemma date_matches: "match_here date_pattern (''Nov 28, 2025'' @ rest) = Some 12"
  by (simp add: date_pattern_def is_upper_def is_lower_def is_space_def is_digit_def)

lemma regex_search_first:
  assumes "\<forall>i<n. match_here items (drop i s) = None" and "n \<le> length s"
    and "match_here items (drop n s) = Some m"
  shows "regex_search items s = Some (n, m)"
  using assms
proof (induction n arbitrary: s)
  case 0
  then show ?case by (cases s) simp_all
next
  case (Suc n)
  then obtain c cs where s: "s = c # cs" by (cases s) auto
  from Suc.prems(1) have here: "match_here items (c # cs) = None"
    unfolding s by (metis drop0 zero_less_Suc)
  have "\<forall>i<n. match_here items (drop i cs) = None"
    using Suc.prems(1) unfolding s by (metis Suc_less_eq drop_Suc_Cons)
  moreover have "n \<le> length cs" "match_here items (drop n cs) = Some m"
    using Suc.prems(2,3) unfolding s by simp_all
  ultimately have "regex_search items cs = Some (n, m)"
    by (rule Suc.IH)
  with here show ?case by (simp add: s)
qed

lemma digit_value_le_5: "a \<in> set ''012345'' \<Longrightarrow> digit_value a \<le> 5"
  by (auto simp: digit_value_def)

lemma digit_value_le_9: "is_digit b \<Longrightarrow> digit_value b \<le> 9"
  by (auto simp: digit_value_def is_digit_def)

lemma decimal_of_rating:
  assumes "a \<in> set ''012345''" and "is_digit b"
  shows "decimal_of [a, CHR ''.'', b] = Some (10 * digit_value a + digit_value b, 1)"
proof -
  from assms(1) have a: "is_digit a"
    by (auto simp: is_digit_def)
  have dot: "\<not> is_digit CHR ''.''"
    by (simp add: is_digit_def)
  show ?thesis
    using a dot assms(2) by (simp add: decimal_of_def digits_value_def)
qed

section \<open>Properties of the extractor\<close>

text \<open>
  C4. On the text \<open>Pros good pay Cons long hours Helpful (3)\<close>, \<open>getSection\<close> gives
  \<open>good pay\<close> for the start keyword \<open>Pros\<close> with the terminators \<open>Cons\<close>,
  \<open>Advice to Management\<close>, \<open>Helpful\<close>, and \<open>long hours\<close> for the start keyword
  \<open>Cons\<close> with the terminators \<open>Advice to Management\<close>, \<open>Helpful\<close>.
\<close>

theorem getSection_example:
  "getSection ''Pros good pay Cons long hours Helpful (3)'' ''Pros''
       [''Cons'', ''Advice to Management'', ''Helpful''] = Some ''good pay''
   \<and> getSection ''Pros good pay Cons long hours Helpful (3)'' ''Cons''
       [''Advice to Management'', ''Helpful''] = Some ''long hours''"
  by code_simp

text \<open>
  C5 (as the code has it). For a text that includes the start keyword, the section is cut
  from just after the first occurrence of the start keyword to the nearest occurrence,
  at or after that point, of any terminator keyword, or to the end of the text when none
  occurs. From this piece every colon, hyphen and full stop is deleted, wherever it
  stands, and the result is trimmed of white space at both ends.
\<close>

theorem getSection_content:
  assumes "str_includes text startKeyword"
  shows "\<exists>i s e.
           occurs_at startKeyword text i \<and> (\<forall>j<i. \<not> occurs_at startKeyword text j)
           \<and> s = i + length startKeyword \<and> s \<le> e \<and> e \<le> length text
           \<and> (\<forall>key \<in> set endKeywords. \<forall>j. s \<le> j \<and> j < e \<longrightarrow> \<not> occurs_at key text j)
           \<and> (e = length text \<or> (\<exists>key \<in> set endKeywords. occurs_at key text e))
           \<and> getSection text startKeyword endKeywords
               = Some (trim (remove_punct (take (e - s) (drop s text))))"
proof -
  from assms have found: "indexOf text startKeyword 0 \<noteq> - 1"
    by (simp add: str_includes_def)
  from indexOf_cases [of 0 "text" startKeyword] found
  obtain i where i: "indexOf text startKeyword 0 = int i" "occurs_at startKeyword text i"
    "\<forall>j<i. \<not> occurs_at startKeyword text j"
    by auto
  define s where "s = i + length startKeyword"
  from i(2) obtain rest where "drop i text = startKeyword @ rest" and "i \<le> length text"
    by (auto simp: occurs_at_def prefix_def)
  then have "length startKeyword \<le> length text - i"
    by (metis length_append length_drop le_add1)
  with \<open>i \<le> length text\<close> have s_le: "s \<le> length text"
    by (simp add: s_def)
  from nearest_end_fold [OF s_le order_refl, of endKeywords]
  obtain e where e: "nearest_end text (int s) endKeywords = int e" "s \<le> e" "e \<le> length text"
    "\<forall>key \<in> set endKeywords. \<forall>j. s \<le> j \<and> j < e \<longrightarrow> \<not> occurs_at key text j"
    "e = length text \<or> (\<exists>key \<in> set endKeywords. occurs_at key text e)"
    unfolding nearest_end_def by blast
  have start: "indexOf text startKeyword 0 + int (length startKeyword) = int s"
    by (simp add: i(1) s_def)
  have "getSection text startKeyword endKeywords
          = Some (trim (remove_punct (take (e - s) (drop s text))))"
    using assms e(1,2,3) by (simp add: getSection_def start substring_take_drop)
  with i(2,3) e(2-5) s_def show ?thesis
    by blast
qed

theorem getSection_content_witness:
  "str_includes ''Pros: good-pay. Cons none'' ''Pros''
   \<and> getSection ''Pros: good-pay. Cons none'' ''Pros''
        [''Cons'', ''Advice to Management'', ''Helpful''] \<noteq> None"
proof -
  have h: "str_includes ''Pros: good-pay. Cons none'' ''Pros''"
    by code_simp
  from getSection_content [OF h, of "[''Cons'', ''Advice to Management'', ''Helpful'']"]
  have "getSection ''Pros: good-pay. Cons none'' ''Pros''
          [''Cons'', ''Advice to Management'', ''Helpful''] \<noteq> None"
    by auto
  with h show ?thesis by simp
qed

text \<open>The hyphen inside \<open>good-pay\<close> is deleted as well: the section that comes out is
  no part of the text.\<close>

theorem getSection_interior_counterexample:
  "getSection ''Pros good-pay. Cons none'' ''Pros''
       [''Cons'', ''Advice to Management'', ''Helpful''] = Some ''goodpay''
   \<and> substring ''Pros good-pay. Cons none'' 4 15 = '' good-pay. ''
   \<and> \<not> str_includes ''Pros good-pay. Cons none'' ''goodpay''"
  by code_simp

text \<open>
  C9. \<open>parseReviewCard\<close> gives no record for a node whose text includes both \<open>(in \<close>
  and \<open>reviews)\<close>, or has fewer than 50 characters, or has no rating signal: no
  \<open>Star\<close> in the text, no \<open>.ratingNumber\<close> descendant and no \<open>span\<close> descendant whose
  class contains \<open>rating\<close>.
\<close>

theorem parseReviewCard_rejects:
  assumes "(str_includes (innerText el) ''(in '' \<and> str_includes (innerText el) ''reviews)'')
           \<or> length (innerText el) < 50
           \<or> (\<not> str_includes (innerText el) ''Star''
               \<and> querySelector sel_ratingNumber el = None
               \<and> querySelector sel_ratingSpan el = None)"
  shows "parseReviewCard el = None"
  using assms by (auto simp: parseReviewCard_def is_noise_def has_rating_signal_def Let_def)

theorem parseReviewCard_rejects_witness:
  "length (innerText short_card) < 50 \<and> parseReviewCard short_card = None"
proof -
  have h: "length (innerText short_card) < 50"
    unfolding short_card_def by simp
  show ?thesis using h parseReviewCard_rejects [of short_card] by blast
qed

text \<open>
  C1. \<open>parseReviewCard\<close> produces a record only if a rating was extracted and at least
  one of pros, cons and title is present, that is, neither \<open>null\<close> nor empty; the record
  carries these extracted values, and a node that fails the condition yields no record.
\<close>

theorem parseReviewCard_retention:
  "(\<forall>r. parseReviewCard el = Some r \<longrightarrow>
        rating r = extract_rating el
        \<and> pros r = getSection (innerText el) ''Pros'' [''Cons'', ''Advice to Management'', ''Helpful'']
        \<and> cons r = getSection (innerText el) ''Cons'' [''Advice to Management'', ''Helpful'']
        \<and> title r = extract_title el
        \<and> (\<exists>s. rating r = Some s \<and> s \<noteq> [])
        \<and> ((\<exists>s. pros r = Some s \<and> s \<noteq> []) \<or> (\<exists>s. cons r = Some s \<and> s \<noteq> [])
           \<or> (\<exists>s. title r = Some s \<and> s \<noteq> [])))
   \<and> (\<not> (truthy (extract_rating el)
          \<and> (truthy (getSection (innerText el) ''Pros'' [''Cons'', ''Advice to Management'', ''Helpful''])
             \<or> truthy (getSection (innerText el) ''Cons'' [''Advice to Management'', ''Helpful''])
             \<or> truthy (extract_title el)))
       \<longrightarrow> parseReviewCard el = None)"
  by (auto simp: parseReviewCard_def Let_def truthy_def split: if_splits option.splits)

theorem parseReviewCard_retention_witness:
  "parseReviewCard good_card \<noteq> None
   \<and> (\<exists>s. rating (the (parseReviewCard good_card)) = Some s \<and> s \<noteq> [])"
proof -
  have h: "parseReviewCard good_card \<noteq> None"
    unfolding good_card_def by code_simp
  then obtain r where r: "parseReviewCard good_card = Some r" by blast
  with parseReviewCard_retention [of good_card] have "\<exists>s. rating r = Some s \<and> s \<noteq> []" by blast
  with h r show ?thesis by simp
qed

text \<open>
  C2 (as the code has it). The rating of an accepted record is a non-empty string. It is
  the trimmed text of the rating element when that is not empty, and no check is made
  that this text is a number. Otherwise it is the first three characters of the node
  text, a digit from 0 to 5, a full stop and a digit: a number between 0.0 and 5.9.
\<close>

theorem accepted_rating_form:
  assumes "parseReviewCard el = Some r"
  shows "\<exists>s. rating r = Some s \<and> s \<noteq> []
           \<and> ((\<exists>ratingEl. rating_element el = Some ratingEl \<and> s = trim (innerText ratingEl))
              \<or> ((\<forall>ratingEl. rating_element el = Some ratingEl \<longrightarrow> trim (innerText ratingEl) = [])
                  \<and> (\<exists>a b m. s = [a, CHR ''.'', b] \<and> prefix s (innerText el)
                          \<and> a \<in> set ''012345'' \<and> is_digit b
                          \<and> decimal_of s = Some (m, 1) \<and> m \<le> 59)))"
proof -
  from assms have r: "rating r = extract_rating el" and t: "truthy (extract_rating el)"
    by (auto simp: parseReviewCard_def Let_def split: if_splits)
  from t obtain s where s: "extract_rating el = Some s" "s \<noteq> []"
    by (auto simp: truthy_def split: option.splits)
  show ?thesis
  proof (cases "truthy (case rating_element el of None \<Rightarrow> None
                         | Some ratingEl \<Rightarrow> Some (trim (innerText ratingEl)))")
    case True
    with s have "\<exists>ratingEl. rating_element el = Some ratingEl \<and> s = trim (innerText ratingEl)"
      by (auto simp: extract_rating_def Let_def split: option.splits)
    with r s show ?thesis by auto
  next
    case False
    then have empty: "\<forall>ratingEl. rating_element el = Some ratingEl \<longrightarrow> trim (innerText ratingEl) = []"
      by (auto simp: truthy_def)
    from False s have m: "match_rating (innerText el) = Some s"
      by (auto simp: extract_rating_def Let_def truthy_def split: option.splits)
    from match_rating_Some [OF m] obtain a b tl
      where parts: "innerText el = a # CHR ''.'' # b # tl" "a \<in> set ''012345''" "is_digit b"
        "s = [a, CHR ''.'', b]"
      by blast
    have pre: "prefix s (innerText el)"
      by (simp add: parts(1,4))
    have dec: "decimal_of s = Some (10 * digit_value a + digit_value b, 1)"
      unfolding parts(4) using parts(2,3) by (rule decimal_of_rating)
    have "10 * digit_value a + digit_value b \<le> 59"
      using digit_value_le_5 [OF parts(2)] digit_value_le_9 [OF parts(3)] by simp
    with parts(2,3,4) pre dec
    have "\<exists>a b m. s = [a, CHR ''.'', b] \<and> prefix s (innerText el)
             \<and> a \<in> set ''012345'' \<and> is_digit b \<and> decimal_of s = Some (m, 1) \<and> m \<le> 59"
      by blast
    with empty r s show ?thesis by auto
  qed
qed

theorem accepted_rating_form_witness:
  "parseReviewCard high_card \<noteq> None
   \<and> (\<exists>s. map_option rating (parseReviewCard high_card) = Some (Some s) \<and> s \<noteq> [])"
proof -
  have h: "parseReviewCard high_card \<noteq> None"
    by code_simp
  then obtain r where r: "parseReviewCard high_card = Some r"
    by blast
  from accepted_rating_form [OF r] obtain s where "rating r = Some s" "s \<noteq> []"
    by blast
  with r have "\<exists>s. map_option rating (parseReviewCard high_card) = Some (Some s) \<and> s \<noteq> []"
    by simp
  with h show ?thesis by simp
qed

text \<open>A label taken as the rating is no number, and a leading \<open>5.9\<close> is above 5.\<close>

theorem rating_out_of_range_counterexample:
  "map_option rating (parseReviewCard label_card) = Some (Some ''Overall'')
   \<and> \<not> rating_in_range ''Overall''
   \<and> map_option rating (parseReviewCard high_card) = Some (Some ''5.9'')
   \<and> \<not> rating_in_range ''5.9''"
  by code_simp

lemma status_line_job_title:
  "trim (strip_separators (replace_first ''Nov 28, 2025 - Current Employee - Engineer''
                             ''Nov 28, 2025''))
     = ''Current Employee - Engineer''"
  by code_simp

lemma status_line_includes_date:
  "str_includes ''Nov 28, 2025 - Current Employee - Engineer'' ''Nov 28, 2025''"
  by code_simp

lemma status_line_one_line:
  "\<forall>c \<in> set ''Nov 28, 2025 - Current Employee - Engineer''. c \<noteq> CHR 0x0A"
  by simp

lemma good_card_no_earlier_date:
  "list_all (\<lambda>i. match_here date_pattern (drop i (innerText good_card)) = None) [0..<9]"
  by code_simp

text \<open>
  C6 (as the code has it). For a node whose text has the line
  \<open>Nov 28, 2025 - Current Employee - Engineer\<close>, with no match of the date pattern
  starting before that line, the date is \<open>Nov 28, 2025\<close> and the job title is
  \<open>Current Employee - Engineer\<close>, in the extraction and in the record when one is
  produced.
\<close>

theorem date_and_job_title:
  assumes el_text: "innerText el = pre @ ''Nov 28, 2025 - Current Employee - Engineer'' @ post"
    and pre: "pre = [] \<or> last pre = CHR 0x0A"
    and post: "post = [] \<or> hd post = CHR 0x0A"
    and first: "\<forall>i<length pre. match_here date_pattern (drop i (innerText el)) = None"
  shows "match_date (innerText el) = Some ''Nov 28, 2025''
         \<and> extract_jobTitle (innerText el) (match_date (innerText el))
             = Some ''Current Employee - Engineer''
         \<and> (\<forall>r. parseReviewCard el = Some r \<longrightarrow>
               date r = Some ''Nov 28, 2025''
               \<and> job_title r = Some ''Current Employee - Engineer'')"
proof -
  define d where "d = ''Nov 28, 2025''"
  define rest where "rest = '' - Current Employee - Engineer''"
  define line where "line = ''Nov 28, 2025 - Current Employee - Engineer''"
  define j where "j = ''Current Employee - Engineer''"
  have line_eq: "line = d @ rest"
    by (simp add: line_def d_def rest_def)
  have d_len: "length d = 12" and d_ne: "d \<noteq> []"
    by (simp_all add: d_def)
  have matches: "match_here date_pattern (d @ tl) = Some 12" for tl
    unfolding d_def by (rule date_matches)
  have el: "innerText el = pre @ line @ post"
    by (simp add: el_text line_def)
  have at_line: "drop (length pre) (innerText el) = d @ (rest @ post)"
    by (simp add: el line_eq)
  have "regex_search date_pattern (innerText el) = Some (length pre, 12)"
  proof (rule regex_search_first [OF first])
    show "length pre \<le> length (innerText el)"
      by (simp add: el)
    show "match_here date_pattern (drop (length pre) (innerText el)) = Some 12"
      unfolding at_line by (rule matches)
  qed
  then have "match_date (innerText el) = Some (take 12 (d @ (rest @ post)))"
    by (simp add: match_date_def at_line)
  then have date: "match_date (innerText el) = Some d"
    using d_len by simp
  have fresh: "\<not> str_includes pre d"
  proof
    assume "str_includes pre d"
    then obtain a b where pre_eq: "pre = a @ d @ b"
      unfolding str_includes_iff by blast
    then have "innerText el = a @ (d @ (b @ line @ post))"
      by (simp add: el)
    then have "drop (length a) (innerText el) = d @ (b @ line @ post)"
      by (metis append_eq_conv_conj)
    then have "match_here date_pattern (drop (length a) (innerText el)) = Some 12"
      by (simp only: matches)
    moreover have "length a < length pre"
      using pre_eq d_ne by simp
    ultimately show False
      using first by (metis option.distinct(1))
  qed
  have one_line: "\<forall>c \<in> set line. c \<noteq> CHR 0x0A"
    unfolding line_def by (rule status_line_one_line)
  have has: "str_includes line d"
    unfolding line_def d_def by (rule status_line_includes_date)
  have found: "find (\<lambda>l. str_includes l d) (split_lines (innerText el)) = Some line"
    unfolding el using pre post one_line has fresh by (rule find_date_line)
  have line_ne: "line \<noteq> []"
    by (simp add: line_eq d_ne)
  have clean: "trim (strip_separators (replace_first line d)) = j"
    unfolding line_def d_def j_def by (rule status_line_job_title)
  have job: "extract_jobTitle (innerText el) (Some d) = Some j"
    using found line_ne d_ne clean by (simp add: extract_jobTitle_def)
  have rec: "date r = Some d \<and> job_title r = Some j" if "parseReviewCard el = Some r" for r
  proof -
    from that have "date r = match_date (innerText el)"
      and "job_title r = extract_jobTitle (innerText el) (match_date (innerText el))"
      by (auto simp: parseReviewCard_def Let_def split: if_splits)
    with date job show ?thesis by simp
  qed
  from date job rec have "match_date (innerText el) = Some d
      \<and> extract_jobTitle (innerText el) (match_date (innerText el)) = Some j
      \<and> (\<forall>r. parseReviewCard el = Some r \<longrightarrow> date r = Some d \<and> job_title r = Some j)"
    by simp
  then show ?thesis
    unfolding d_def j_def .
qed

theorem date_and_job_title_witness:
  "innerText good_card = ''4.0 Star\<newline>'' @ ''Nov 28, 2025 - Current Employee - Engineer''
                           @ ''\<newline>Pros good pay Cons long hours Helpful (3)''
   \<and> map_option date (parseReviewCard good_card) = Some (Some ''Nov 28, 2025'')
   \<and> map_option job_title (parseReviewCard good_card) = Some (Some ''Current Employee - Engineer'')"
proof -
  define pre where "pre = ''4.0 Star\<newline>''"
  define post where "post = ''\<newline>Pros good pay Cons long hours Helpful (3)''"
  have t: "innerText good_card = pre @ ''Nov 28, 2025 - Current Employee - Engineer'' @ post"
    by (simp add: good_card_def pre_def post_def)
  have p: "pre = [] \<or> last pre = CHR 0x0A"
    by (simp add: pre_def)
  have q: "post = [] \<or> hd post = CHR 0x0A"
    by (simp add: post_def)
  have len: "length pre = 9"
    by (simp add: pre_def)
  have f: "\<forall>i<length pre. match_here date_pattern (drop i (innerText good_card)) = None"
    using good_card_no_earlier_date unfolding len by (simp add: list_all_iff)
  have some: "parseReviewCard good_card \<noteq> None"
    by code_simp
  then obtain r where r: "parseReviewCard good_card = Some r"
    by blast
  from date_and_job_title [OF t p q f] r
  have "date r = Some ''Nov 28, 2025'' \<and> job_title r = Some ''Current Employee - Engineer''"
    by blast
  with r have "map_option date (parseReviewCard good_card) = Some (Some ''Nov 28, 2025'')
     \<and> map_option job_title (parseReviewCard good_card) = Some (Some ''Current Employee - Engineer'')"
    by simp
  with t show ?thesis
    unfolding pre_def post_def by blast
qed

text \<open>With a date on an earlier line, that date is taken, and the job title comes from
  its line.\<close>

theorem earlier_date_counterexample:
  "''Nov 28, 2025 - Current Employee - Engineer'' \<in> set (split_lines (innerText early_date_card))
   \<and> map_option date (parseReviewCard early_date_card) = Some (Some ''Jan 5, 2024'')
   \<and> map_option job_title (parseReviewCard early_date_card) = Some (Some ''Updated'')"
  by code_simp

section \<open>Properties of the persisted store\<close>

text \<open>
  C10. When the output file exists and its content does not parse as JSON, \<open>saveData\<close>
  raises nothing and writes the new batch alone, as it does when the file is absent:
  whatever the file held is lost.
\<close>

theorem saveData_unparsable_store:
  assumes "JSON_parse content = None"
  shows "saveData JSON_parse JSON_stringify newData (Some content)
           = Inr (Some (JSON_stringify (JArr newData)))
         \<and> saveData JSON_parse JSON_stringify newData (Some content)
           = saveData JSON_parse JSON_stringify newData None"
  using assms by (simp add: saveData_def)

theorem saveData_unparsable_store_witness:
  "demo_parse ''[1,'' = None
   \<and> saveData demo_parse demo_stringify [JNum ''1''] (Some ''[1,'') = Inr (Some ''[1]'')"
proof -
  have h: "demo_parse ''[1,'' = None"
    by (simp add: demo_parse_def)
  have s: "demo_stringify (JArr [JNum ''1'']) = ''[1]''"
    by (simp add: demo_stringify_def)
  show ?thesis
    using h s saveData_unparsable_store [of demo_parse "''[1,''" demo_stringify "[JNum ''1'']"]
    by simp
qed

text \<open>
  C3. From an absent store, saving a batch of N records and then a batch of M records
  leaves a store of exactly N + M records: the first batch, in its order, followed by the
  second, in its order. \<open>JSON.parse\<close> is assumed to read back the two arrays that
  \<open>JSON.stringify\<close> wrote.
\<close>

theorem saveData_two_batches:
  assumes "JSON_parse (JSON_stringify (JArr b1)) = Some (JArr b1)"
    and "JSON_parse (JSON_stringify (JArr (b1 @ b2))) = Some (JArr (b1 @ b2))"
  shows "\<exists>file xs. saveData_all JSON_parse JSON_stringify [b1, b2] None = Inr file
           \<and> stored_records JSON_parse file = Some xs
           \<and> length xs = length b1 + length b2
           \<and> take (length b1) xs = b1
           \<and> drop (length b1) xs = b2"
proof -
  have first: "saveData JSON_parse JSON_stringify b1 None = Inr (Some (JSON_stringify (JArr b1)))"
    by (simp add: saveData_def)
  have second: "saveData JSON_parse JSON_stringify b2 (Some (JSON_stringify (JArr b1)))
                  = Inr (Some (JSON_stringify (JArr (b1 @ b2))))"
    using assms(1) by (simp add: saveData_def)
  have run: "saveData_all JSON_parse JSON_stringify [b1, b2] None
               = Inr (Some (JSON_stringify (JArr (b1 @ b2))))"
    by (simp add: first second)
  have stored: "stored_records JSON_parse (Some (JSON_stringify (JArr (b1 @ b2)))) = Some (b1 @ b2)"
    using assms(2) by (simp add: stored_records_def)
  show ?thesis
    using run stored by simp
qed

theorem saveData_two_batches_witness:
  "demo_parse (demo_stringify (JArr [JNum ''1''])) = Some (JArr [JNum ''1''])
   \<and> (\<exists>file. saveData_all demo_parse demo_stringify [ [JNum ''1''], [JNum ''2'', JNum ''3''] ] None = Inr file
          \<and> stored_records demo_parse file = Some [JNum ''1'', JNum ''2'', JNum ''3''])"
proof -
  have h1: "demo_parse (demo_stringify (JArr [JNum ''1''])) = Some (JArr [JNum ''1''])"
    by (simp add: demo_parse_def demo_stringify_def)
  have h2: "demo_parse (demo_stringify (JArr ([JNum ''1''] @ [JNum ''2'', JNum ''3''])))
              = Some (JArr ([JNum ''1''] @ [JNum ''2'', JNum ''3'']))"
    by (simp add: demo_parse_def demo_stringify_def)
  from saveData_two_batches [OF h1 h2]
  obtain fl xs where f: "saveData_all demo_parse demo_stringify [ [JNum ''1''], [JNum ''2'', JNum ''3''] ] None = Inr fl"
    and x: "stored_records demo_parse fl = Some xs"
    and t: "take (length [JNum ''1'']) xs = [JNum ''1'']"
    and d: "drop (length [JNum ''1'']) xs = [JNum ''2'', JNum ''3'']"
    by blast
  have "xs = take (length [JNum ''1'']) xs @ drop (length [JNum ''1'']) xs"
    by simp
  with t d have "xs = [JNum ''1'', JNum ''2'', JNum ''3'']"
    by simp
  with f x h1 show ?thesis by blast
qed

section \<open>Properties of the page loop\<close>

lemma page_loop_le:
  "i \<le> MAX_PAGES_PER_COMPANY \<Longrightarrow> fst (page_loop pages i) \<le> MAX_PAGES_PER_COMPANY"
proof (induction pages i rule: page_loop.induct)
  case (1 pages i)
  show ?case
  proof (cases "i < MAX_PAGES_PER_COMPANY")
    case True
    show ?thesis
    proof (cases "page_step (pages i)")
      case None
      with True "1.IH" show ?thesis by simp
    next
      case (Some why)
      with True show ?thesis by simp
    qed
  next
    case False
    with "1.prems" show ?thesis by simp
  qed
qed

lemma page_loop_first_stop:
  assumes "k < MAX_PAGES_PER_COMPANY" and "page_step (pages k) = Some why"
    and "\<forall>j. i \<le> j \<and> j < k \<longrightarrow> page_step (pages j) = None" and "i \<le> k"
  shows "page_loop pages i = (Suc k, why)"
  using assms
proof (induction "k - i" arbitrary: i)
  case 0
  then have "i = k" by simp
  with "0.prems" show ?case by simp
next
  case (Suc d)
  then have lt: "i < k" by simp
  with Suc.prems have none: "page_step (pages i) = None" by simp
  have "page_loop pages (Suc i) = (Suc k, why)"
    using Suc.hyps Suc.prems lt by (intro Suc.hyps(1)) auto
  with none lt Suc.prems(1) show ?case by simp
qed

lemma page_loop_no_stop:
  assumes "\<forall>j. i \<le> j \<and> j < MAX_PAGES_PER_COMPANY \<longrightarrow> page_step (pages j) = None"
    and "i \<le> MAX_PAGES_PER_COMPANY"
  shows "page_loop pages i = (MAX_PAGES_PER_COMPANY, CapReached)"
  using assms
proof (induction "MAX_PAGES_PER_COMPANY - i" arbitrary: i)
  case 0
  then have "i = MAX_PAGES_PER_COMPANY" by simp
  then show ?case by simp
next
  case (Suc d)
  then have lt: "i < MAX_PAGES_PER_COMPANY" by simp
  with Suc.prems have none: "page_step (pages i) = None" by simp
  have "page_loop pages (Suc i) = (MAX_PAGES_PER_COMPANY, CapReached)"
    using Suc.hyps Suc.prems lt by (intro Suc.hyps(1)) auto
  with none lt show ?case by simp
qed

lemma page_step_stops:
  "page_step (NextButton n vis dis cls) \<noteq> None
     \<longleftrightarrow> n = 0 \<or> \<not> vis \<or> dis \<or> str_includes (case cls of None \<Rightarrow> [] | Some c \<Rightarrow> c) ''disabled''"
  by (auto simp: isClassDisabled_def split: option.splits)

text \<open>
  C7. The page loop of one company ends for every sequence of observations of the "next"
  control, after at most \<open>MAX_PAGES_PER_COMPANY\<close> = 30 iterations; it ends with the first
  iteration in which the control matches nothing, is not visible, or is disabled (by its
  disabled state or by a class attribute that contains \<open>disabled\<close>), and runs the 30
  iterations when no iteration ends it.
\<close>

theorem page_loop_stops_within_cap:
  "MAX_PAGES_PER_COMPANY = 30
   \<and> (\<exists>n why. scrape_pages pages = (n, why) \<and> n \<le> MAX_PAGES_PER_COMPANY)
   \<and> (\<forall>k n vis dis cls.
         k < MAX_PAGES_PER_COMPANY
         \<and> (\<forall>j<k. page_step (pages j) = None)
         \<and> pages k = NextButton n vis dis cls
         \<and> (n = 0 \<or> \<not> vis \<or> dis
            \<or> str_includes (case cls of None \<Rightarrow> [] | Some c \<Rightarrow> c) ''disabled'')
         \<longrightarrow> fst (scrape_pages pages) = Suc k)
   \<and> ((\<forall>j<MAX_PAGES_PER_COMPANY. page_step (pages j) = None)
        \<longrightarrow> scrape_pages pages = (MAX_PAGES_PER_COMPANY, CapReached))"
proof -
  have cap: "MAX_PAGES_PER_COMPANY = 30"
    by (simp add: MAX_PAGES_PER_COMPANY_def)
  have "fst (scrape_pages pages) \<le> MAX_PAGES_PER_COMPANY"
    unfolding scrape_pages_def by (rule page_loop_le) simp
  then have bound: "\<exists>n why. scrape_pages pages = (n, why) \<and> n \<le> MAX_PAGES_PER_COMPANY"
    by (cases "scrape_pages pages") simp
  have stops: "fst (scrape_pages pages) = Suc k"
    if k: "k < MAX_PAGES_PER_COMPANY"
      and before: "\<forall>j<k. page_step (pages j) = None"
      and obs: "pages k = NextButton n vis dis cls"
      and stop: "n = 0 \<or> \<not> vis \<or> dis
                 \<or> str_includes (case cls of None \<Rightarrow> [] | Some c \<Rightarrow> c) ''disabled''"
    for k n vis dis cls
  proof -
    from stop have "page_step (NextButton n vis dis cls) \<noteq> None"
      by (simp only: page_step_stops)
    then obtain why where "page_step (pages k) = Some why"
      using obs by auto
    then have "page_loop pages 0 = (Suc k, why)"
      using k before by (intro page_loop_first_stop) auto
    then show ?thesis
      by (simp add: scrape_pages_def)
  qed
  have exhausted: "scrape_pages pages = (MAX_PAGES_PER_COMPANY, CapReached)"
    if "\<forall>j<MAX_PAGES_PER_COMPANY. page_step (pages j) = None"
    unfolding scrape_pages_def using that by (intro page_loop_no_stop) auto
  from cap bound stops exhausted show ?thesis
    by blast
qed

theorem page_loop_stops_within_cap_witness:
  "(3::nat) < MAX_PAGES_PER_COMPANY
   \<and> demo_pages 3 = NextButton 1 True False (Some ''next disabled'')
   \<and> str_includes ''next disabled'' ''disabled''
   \<and> fst (scrape_pages demo_pages) = 4"
proof -
  have k: "(3::nat) < MAX_PAGES_PER_COMPANY"
    by (simp add: MAX_PAGES_PER_COMPANY_def)
  have obs: "demo_pages 3 = NextButton 1 True False (Some ''next disabled'')"
    by (simp add: demo_pages_def)
  have dis: "str_includes ''next disabled'' ''disabled''"
    by code_simp
  have no: "\<not> str_includes ''next'' ''disabled''"
    by code_simp
  have before: "\<forall>j<3. page_step (demo_pages j) = None"
    using no by (simp add: demo_pages_def isClassDisabled_def)
  from page_loop_stops_within_cap [of demo_pages]
  have "(3::nat) < MAX_PAGES_PER_COMPANY
        \<and> (\<forall>j<3. page_step (demo_pages j) = None)
        \<and> demo_pages 3 = NextButton 1 True False (Some ''next disabled'')
        \<and> ((1::nat) = 0 \<or> \<not> True \<or> False
            \<or> str_includes (case Some ''next disabled'' of None \<Rightarrow> [] | Some c \<Rightarrow> c) ''disabled'')
        \<longrightarrow> fst (scrape_pages demo_pages) = Suc 3"
    by blast
  with k obs dis before have "fst (scrape_pages demo_pages) = Suc 3"
    by simp
  with k obs dis show ?thesis by simp
qed

section \<open>Properties of the fallback candidates\<close>

lemma dedup_nested_iff:
  "d \<in> set (dedup_nested divs)
     \<longleftrightarrow> d \<in> set divs \<and> (\<forall>other \<in> set divs. same_node other d \<or> \<not> contains other d)"
  by (auto simp: dedup_nested_def list_ex_iff)

lemma dedup_nested_top:
  "d \<in> set divs \<Longrightarrow> \<exists>top \<in> set (dedup_nested divs). contains top d"
proof (induction "length (fst d)" arbitrary: d rule: less_induct)
  case less
  show ?case
  proof (cases "d \<in> set (dedup_nested divs)")
    case True
    then show ?thesis
      by (auto simp: contains_def)
  next
    case False
    with less.prems obtain other where other: "other \<in> set divs"
      and ne: "fst other \<noteq> fst d" and pre: "prefix (fst other) (fst d)"
      by (auto simp: dedup_nested_iff same_node_def contains_def)
    from ne pre have "length (fst other) < length (fst d)"
      by (metis prefix_length_less strict_prefix_def)
    from less.hyps [OF this other] obtain top
      where top: "top \<in> set (dedup_nested divs)" and c: "contains top other"
      by blast
    from c pre have "contains top d"
      by (auto simp: contains_def intro: prefix_order.trans)
    with top show ?thesis by blast
  qed
qed

text \<open>
  C8 (as the code has it). In the fallback path, when two \<open>div\<close> blocks both have a
  text that includes \<open>Pros\<close> and \<open>Cons\<close> and is shorter than 2000 characters, and
  one contains the other, the nested block is removed from the deduplicated candidates
  and a candidate that contains it remains. The containing block of the pair remains
  exactly when no other candidate contains it: of a chain of nested candidates only the
  outermost is kept. The fallback parses exactly the deduplicated candidates.
\<close>

theorem fallback_keeps_outermost:
  assumes "parent \<in> set (querySelectorAll ''div'' doc)"
    and "str_includes (innerText (snd parent)) ''Pros''"
    and "str_includes (innerText (snd parent)) ''Cons''"
    and "length (innerText (snd parent)) < 2000"
    and "child \<in> set (querySelectorAll ''div'' doc)"
    and "str_includes (innerText (snd child)) ''Pros''"
    and "str_includes (innerText (snd child)) ''Cons''"
    and "length (innerText (snd child)) < 2000"
    and "contains parent child" and "\<not> same_node parent child"
  shows "child \<notin> set (uniqueDivs doc)
         \<and> (\<exists>top \<in> set (uniqueDivs doc). contains top child \<and> \<not> same_node top child)
         \<and> (parent \<in> set (uniqueDivs doc)
              \<longleftrightarrow> (\<forall>other \<in> set (reviewDivs doc).
                     same_node other parent \<or> \<not> contains other parent))
         \<and> (length (parse_all (querySelectorAll ''li'' doc)) = 0
              \<longrightarrow> extract_reviews doc = parse_all (uniqueDivs doc))"
proof -
  have p: "parent \<in> set (reviewDivs doc)" and c: "child \<in> set (reviewDivs doc)"
    using assms by (simp_all add: reviewDivs_def is_review_div_def)
  have gone: "child \<notin> set (uniqueDivs doc)"
    using p assms(9,10) by (auto simp: uniqueDivs_def dedup_nested_iff)
  from dedup_nested_top [OF c] obtain top
    where top: "top \<in> set (uniqueDivs doc)" and tc: "contains top child"
    by (auto simp: uniqueDivs_def)
  have "\<not> same_node top child"
  proof
    assume "same_node top child"
    then have "fst top = fst child" by (simp add: same_node_def)
    with top c have "child \<in> set (uniqueDivs doc)"
      by (auto simp: uniqueDivs_def dedup_nested_iff same_node_def contains_def)
    with gone show False by simp
  qed
  with top tc have survivor: "\<exists>top \<in> set (uniqueDivs doc). contains top child \<and> \<not> same_node top child"
    by blast
  have kept: "parent \<in> set (uniqueDivs doc)
                \<longleftrightarrow> (\<forall>other \<in> set (reviewDivs doc).
                       same_node other parent \<or> \<not> contains other parent)"
    using p by (simp add: uniqueDivs_def dedup_nested_iff)
  have fallback: "extract_reviews doc = parse_all (uniqueDivs doc)"
    if "length (parse_all (querySelectorAll ''li'' doc)) = 0"
    using that by (simp add: extract_reviews_def)
  from gone survivor kept fallback show ?thesis
    by blast
qed

theorem fallback_keeps_outermost_witness:
  "map fst (reviewDivs demo_doc) = [ [0], [0, 0] ]
   \<and> ([0, 0], Element ''div'' None None ''Pros good pay Cons long hours'' [])
       \<notin> set (uniqueDivs demo_doc)"
proof -
  let ?child = "([0, 0], Element ''div'' None None ''Pros good pay Cons long hours'' [])"
  let ?parent = "([0], Element ''div'' None None ''Pros good pay Cons long hours''
                         [Element ''div'' None None ''Pros good pay Cons long hours'' []])"
  have divs: "querySelectorAll ''div'' demo_doc = [([], demo_doc), ?parent, ?child]"
    unfolding demo_doc_def by code_simp
  have inc: "str_includes ''Pros good pay Cons long hours'' ''Pros''"
    "str_includes ''Pros good pay Cons long hours'' ''Cons''"
    by code_simp+
  have rd: "map fst (reviewDivs demo_doc) = [ [0], [0, 0] ]"
    unfolding demo_doc_def by code_simp
  have "?child \<notin> set (uniqueDivs demo_doc)"
    using fallback_keeps_outermost [of ?parent demo_doc ?child] divs inc
    by (simp add: contains_def same_node_def)
  with rd show ?thesis by simp
qed

text \<open>In a chain of three nested review blocks, the middle block contains the innermost
  one and is removed with it: the outermost block alone is kept.\<close>

theorem nested_chain_counterexample:
  "map fst (reviewDivs chain_doc) = [ [0], [0, 0], [0, 0, 0] ]
   \<and> list_all is_review_div (reviewDivs chain_doc)
   \<and> contains (reviewDivs chain_doc ! 1) (reviewDivs chain_doc ! 2)
   \<and> \<not> same_node (reviewDivs chain_doc ! 1) (reviewDivs chain_doc ! 2)
   \<and> reviewDivs chain_doc ! 1 \<notin> set (uniqueDivs chain_doc)
   \<and> map fst (uniqueDivs chain_doc) = [ [0] ]"
  by code_simp

end
